theory Spec2Isabelle
  imports Complex_Main "HOL-Library.Multiset"
begin

section \<open>SetOps: \<open>UniqAppend\<close> and \<open>Dedup\<close> (pipeline/util/util.go)\<close>

subsection \<open>UniqAppend\<close>

text \<open>
  \<^verbatim>\<open>
  func UniqAppend(a []string, b []string) []string {
      ret := make([]string, 0, len(a)+len(b))
      for _, e := range a { ret = append(ret, e) }
      for _, be := range b {
          add := true
          for _, ae := range a { if ae == be { add = false; break } }
          if add { ret = append(ret, be) }
      }
      return ret
  }
  \<close>
  The three loops are three recursive functions. \<open>UniqAppend_copy\<close> is the first loop,
  \<open>UniqAppend_add\<close> the scan of \<open>a\<close> that computes the flag \<open>add\<close> (the scan stops at
  the first equal element, as the \<open>break\<close> does), \<open>UniqAppend_rest\<close> the loop over \<open>b\<close>.
\<close>

fun UniqAppend_copy :: "string list \<Rightarrow> string list \<Rightarrow> string list" where
  "UniqAppend_copy ret [] = ret"
| "UniqAppend_copy ret (e # es) = UniqAppend_copy (ret @ [e]) es"

fun UniqAppend_add :: "string list \<Rightarrow> string \<Rightarrow> bool" where
  "UniqAppend_add [] be = True"
| "UniqAppend_add (ae # as) be = (if ae = be then False else UniqAppend_add as be)"

fun UniqAppend_rest :: "string list \<Rightarrow> string list \<Rightarrow> string list \<Rightarrow> string list" where
  "UniqAppend_rest a ret [] = ret"
| "UniqAppend_rest a ret (be # bs) =
     UniqAppend_rest a (if UniqAppend_add a be then ret @ [be] else ret) bs"

definition UniqAppend :: "string list \<Rightarrow> string list \<Rightarrow> string list" where
  "UniqAppend a b = UniqAppend_rest a (UniqAppend_copy [] a) b"

subsection \<open>Dedup\<close>

text \<open>
  \<^verbatim>\<open>
  func Dedup(a []string) []string {
      length := len(a) - 1
      for i := 0; i < length; i++ {
          for j := i + 1; j <= length; j++ {
              if a[i] == a[j] {
                  a[j] = a[length]
                  a = a[:length]
                  length--
                  j--
              }
          }
      }
      return a
  }
  \<close>
  \<open>length\<close>, \<open>i\<close> and \<open>j\<close> are Go \<open>int\<close>s (\<open>length\<close> starts at \<open>-1\<close> on the empty
  slice), so they are \<open>int\<close> here. An index expression outside the slice panics in Go:
  \<open>index\<close> returns \<open>None\<close> there and the loops propagate it, so \<open>None\<close> is the panic.
  The slice expression \<open>a[:length]\<close> is evaluated right after \<open>a[length]\<close> was read, so
  it is within the slice and is \<open>take\<close>. The \<open>j--\<close> of a removal and the \<open>j++\<close> of the
  loop header cancel: the inner loop looks at the same index again.
\<close>

definition index :: "'a list \<Rightarrow> int \<Rightarrow> 'a option" where
  "index a k = (if 0 \<le> k \<and> k < int (length a) then Some (a ! nat k) else None)"

function Dedup_inner :: "string list \<Rightarrow> int \<Rightarrow> int \<Rightarrow> int \<Rightarrow> (string list \<times> int) option" where
  "Dedup_inner a len i j =
     (if j \<le> len then
        (case index a i of None \<Rightarrow> None
         | Some ai \<Rightarrow>
           (case index a j of None \<Rightarrow> None
            | Some aj \<Rightarrow>
              if ai = aj then
                (case index a len of None \<Rightarrow> None
                 | Some al \<Rightarrow> Dedup_inner (take (nat len) (a[nat j := al])) (len - 1) i j)
              else Dedup_inner a len i (j + 1)))
      else Some (a, len))"
  by pat_completeness auto
termination
  by (relation "measure (\<lambda>(a, len, i, j). nat (len - j + 1))") auto

declare Dedup_inner.simps [simp del]

lemma Dedup_inner_len: "Dedup_inner a len i j = Some (a', len') \<Longrightarrow> len' \<le> len"
proof (induction a len i j rule: Dedup_inner.induct)
  case (1 a len i j)
  from "1.prems" show ?case
    apply (subst (asm) Dedup_inner.simps)
    apply (auto split: if_splits option.splits dest: "1.IH")
    done
qed

function Dedup_outer :: "string list \<Rightarrow> int \<Rightarrow> int \<Rightarrow> string list option" where
  "Dedup_outer a len i =
     (if i < len then
        (case Dedup_inner a len i (i + 1) of None \<Rightarrow> None
         | Some (a', len') \<Rightarrow> Dedup_outer a' len' (i + 1))
      else Some a)"
  by pat_completeness auto
termination
  by (relation "measure (\<lambda>(a, len, i). nat (len - i))") (auto dest: Dedup_inner_len)

declare Dedup_outer.simps [simp del]

definition Dedup :: "string list \<Rightarrow> string list option" where
  "Dedup a = Dedup_outer a (int (length a) - 1) 0"


text \<open>
  The invariant of the outer loop: each of the first \<open>i\<close> elements occurs nowhere else
  in the slice.
\<close>

definition uniq_upto :: "'a list \<Rightarrow> nat \<Rightarrow> bool" where
  "uniq_upto a i \<longleftrightarrow> (\<forall>k<i. \<forall>m<length a. m \<noteq> k \<longrightarrow> a ! m \<noteq> a ! k)"

section \<open>Properties of SetOps\<close>

subsection \<open>UniqAppend\<close>

lemma UniqAppend_copy_eq: "UniqAppend_copy ret es = ret @ es"
  by (induction es arbitrary: ret) simp_all

lemma UniqAppend_add_iff: "UniqAppend_add a be \<longleftrightarrow> be \<notin> set a"
  by (induction a) auto

lemma UniqAppend_rest_eq: "UniqAppend_rest a ret b = ret @ filter (\<lambda>be. be \<notin> set a) b"
  by (induction b arbitrary: ret) (simp_all add: UniqAppend_add_iff)

lemma UniqAppend_eq: "UniqAppend a b = a @ filter (\<lambda>be. be \<notin> set a) b"
  by (simp add: UniqAppend_def UniqAppend_copy_eq UniqAppend_rest_eq)

lemma length_filter_in_le:
  assumes "distinct b"
  shows "length (filter (\<lambda>be. be \<in> set a) b) \<le> length a"
proof -
  have "length (filter (\<lambda>be. be \<in> set a) b) = card (set (filter (\<lambda>be. be \<in> set a) b))"
    by (rule distinct_card[symmetric]) (simp add: assms)
  also have "\<dots> \<le> card (set a)" by (rule card_mono) auto
  also have "\<dots> \<le> length a" by (rule card_length)
  finally show ?thesis .
qed

lemma UniqAppend_length_ge:
  assumes "distinct b"
  shows "max (length a) (length b) \<le> length (UniqAppend a b)"
proof -
  have "length b = length (filter (\<lambda>be. be \<in> set a) b) + length (filter (\<lambda>be. be \<notin> set a) b)"
    using sum_length_filter_compl[of "\<lambda>be. be \<in> set a" b] by simp
  with length_filter_in_le[OF assms, of a] show ?thesis
    by (simp add: UniqAppend_eq)
qed

text \<open>
  C3 (as amended). \<open>UniqAppend a b\<close> is \<open>a\<close> followed by the elements of \<open>b\<close> that do not
  occur in \<open>a\<close>, in \<open>b\<close>'s order; its elements are those of \<open>a\<close> and \<open>b\<close>; its length is
  between \<open>|a|\<close> and \<open>|a| + |b|\<close>. It is at least \<open>max |a| |b|\<close> long when \<open>b\<close> has no
  duplicates, and free of duplicates when neither \<open>a\<close> nor \<open>b\<close> has any.
\<close>

theorem UniqAppend_union_order:
  "UniqAppend a b = a @ filter (\<lambda>be. be \<notin> set a) b \<and>
   set (UniqAppend a b) = set a \<union> set b \<and>
   length a \<le> length (UniqAppend a b) \<and>
   length (UniqAppend a b) \<le> length a + length b \<and>
   (distinct b \<longrightarrow> max (length a) (length b) \<le> length (UniqAppend a b)) \<and>
   (distinct a \<and> distinct b \<longrightarrow> distinct (UniqAppend a b))"
proof (intro conjI impI)
  show "UniqAppend a b = a @ filter (\<lambda>be. be \<notin> set a) b" by (rule UniqAppend_eq)
  show "set (UniqAppend a b) = set a \<union> set b" by (auto simp: UniqAppend_eq)
  show "length a \<le> length (UniqAppend a b)" by (simp add: UniqAppend_eq)
  show "length (UniqAppend a b) \<le> length a + length b" by (simp add: UniqAppend_eq)
  show "max (length a) (length b) \<le> length (UniqAppend a b)" if "distinct b"
    using that by (rule UniqAppend_length_ge)
  show "distinct (UniqAppend a b)" if "distinct a \<and> distinct b"
    using that by (auto simp: UniqAppend_eq)
qed

theorem UniqAppend_union_order_witness:
  "UniqAppend [''a.com'', ''b.com''] [''b.com'', ''c.com''] = [''a.com'', ''b.com'', ''c.com''] \<and>
   distinct [''b.com'', ''c.com''] \<and> distinct [''a.com'', ''b.com''] \<and>
   max (length [''a.com'', ''b.com'']) (length [''b.com'', ''c.com''])
     \<le> length (UniqAppend [''a.com'', ''b.com''] [''b.com'', ''c.com'']) \<and>
   distinct (UniqAppend [''a.com'', ''b.com''] [''b.com'', ''c.com''])"
  using UniqAppend_union_order [of "[''a.com'', ''b.com'']" "[''b.com'', ''c.com'']"]
  by simp

text \<open>
  C3 (as stated) fails: with \<open>a = ["x"]\<close> and \<open>b = ["y", "y", "x", "x"]\<close> the result is
  \<open>["x", "y", "y"]\<close>, which has a duplicate and is shorter than \<open>max |a| |b| = 4\<close>.
\<close>

theorem UniqAppend_duplicates_counterexample:
  "UniqAppend [''x''] [''y'', ''y'', ''x'', ''x''] = [''x'', ''y'', ''y''] \<and>
   \<not> distinct (UniqAppend [''x''] [''y'', ''y'', ''x'', ''x'']) \<and>
   length (UniqAppend [''x''] [''y'', ''y'', ''x'', ''x''])
     < max (length [''x'']) (length [''y'', ''y'', ''x'', ''x''])"
  by (simp add: UniqAppend_def)

subsection \<open>Dedup\<close>

lemma index_Some: "0 \<le> k \<Longrightarrow> k < int (length a) \<Longrightarrow> index a k = Some (a ! nat k)"
  by (simp add: index_def)

lemma swap_last_length: "n < length a \<Longrightarrow> length (take n (a[j := a ! n])) = n"
  by simp

lemma swap_last_nth:
  "n < length a \<Longrightarrow> m < n \<Longrightarrow> take n (a[j := a ! n]) ! m = (if m = j then a ! n else a ! m)"
  by (simp add: nth_list_update)

lemma swap_last_set:
  assumes "Suc n = length a" "i < j" "j \<le> n" "a ! i = a ! j"
  shows "set (take n (a[j := a ! n])) = set a"
proof
  show "set (take n (a[j := a ! n])) \<subseteq> set a"
  proof
    fix x assume "x \<in> set (take n (a[j := a ! n]))"
    then have "x \<in> set (a[j := a ! n])" by (rule in_set_takeD)
    then have "x \<in> insert (a ! n) (set a)" using set_update_subset_insert by fastforce
    then show "x \<in> set a" using assms(1) by auto
  qed
next
  show "set a \<subseteq> set (take n (a[j := a ! n]))"
  proof
    fix x assume "x \<in> set a"
    then obtain m where m: "m < length a" "x = a ! m" by (auto simp: in_set_conv_nth)
    let ?a' = "take n (a[j := a ! n])"
    have len: "length ?a' = n" using assms(1) by simp
    have nth: "\<And>m. m < n \<Longrightarrow> ?a' ! m = (if m = j then a ! n else a ! m)"
      using assms(1) by (simp add: nth_list_update)
    consider "m = j" | "m = n" "j < n" | "m \<noteq> j" "m < n" using m(1) assms(1,3) by linarith
    then have "\<exists>k<n. ?a' ! k = x"
    proof cases
      case 1
      have "i < n" using assms by simp
      moreover have "?a' ! i = a ! i" using nth[OF \<open>i < n\<close>] assms(2) by simp
      ultimately show ?thesis using 1 m(2) assms(4) by auto
    next
      case 2
      then show ?thesis using nth[of j] m(2) by auto
    next
      case 3
      then show ?thesis using nth[of m] m(2) by auto
    qed
    then show "x \<in> set ?a'" using len by (auto simp: in_set_conv_nth)
  qed
qed

lemma Dedup_inner_inv:
  assumes "len = int (length a) - 1" "0 \<le> i" "i < j" "j \<le> len + 1"
    and "uniq_upto a (nat i)" and "\<forall>m. nat i < m \<and> m < nat j \<longrightarrow> a ! m \<noteq> a ! nat i"
  shows "\<exists>a' len'. Dedup_inner a len i j = Some (a', len') \<and> len' = int (length a') - 1 \<and>
           i \<le> len' \<and> set a' = set a \<and> length a' \<le> length a \<and> uniq_upto a' (Suc (nat i))"
  using assms
proof (induction a len i j rule: Dedup_inner.induct)
  case (1 a len i j)
  note len = \<open>len = int (length a) - 1\<close>
  show ?case
  proof (cases "j \<le> len")
    case False
    then have res: "Dedup_inner a len i j = Some (a, len)"
      by (subst Dedup_inner.simps) simp
    have jl: "nat j = length a" using False "1.prems" by simp
    have "uniq_upto a (Suc (nat i))"
      unfolding uniq_upto_def
    proof (intro allI impI)
      fix k m assume k: "k < Suc (nat i)" and m: "m < length a" "m \<noteq> k"
      show "a ! m \<noteq> a ! k"
      proof (cases "k = nat i")
        case True
        show ?thesis
        proof (cases "m < nat i")
          case True
          have "nat i < length a" using "1.prems" by simp
          with True \<open>k = nat i\<close> "1.prems"(5) show ?thesis
            unfolding uniq_upto_def by (metis m(2))
        next
          case False
          with m \<open>k = nat i\<close> have "nat i < m" "m < nat j" using jl by simp_all
          with "1.prems"(6) \<open>k = nat i\<close> show ?thesis by simp
        qed
      next
        case False
        with k have "k < nat i" by simp
        with "1.prems"(5) m show ?thesis unfolding uniq_upto_def by simp
      qed
    qed
    moreover have "i \<le> len" using "1.prems" by simp
    ultimately show ?thesis using res len by simp
  next
    case True
    have i: "index a i = Some (a ! nat i)" using True "1.prems" by (intro index_Some) simp_all
    have j: "index a j = Some (a ! nat j)" using True "1.prems" by (intro index_Some) simp_all
    have l: "index a len = Some (a ! nat len)" using True "1.prems" by (intro index_Some; linarith)
    show ?thesis
    proof (cases "a ! nat i = a ! nat j")
      case False
      have step: "Dedup_inner a len i j = Dedup_inner a len i (j + 1)"
        using True i j False by (subst Dedup_inner.simps) simp
      have "\<forall>m. nat i < m \<and> m < nat (j + 1) \<longrightarrow> a ! m \<noteq> a ! nat i"
      proof (intro allI impI)
        fix m assume "nat i < m \<and> m < nat (j + 1)"
        then have "m < nat j \<or> m = nat j" using "1.prems" by linarith
        then show "a ! m \<noteq> a ! nat i"
          using "1.prems"(6) False \<open>nat i < m \<and> m < nat (j + 1)\<close> by auto
      qed
      with "1.IH"(2)[OF True i j False] "1.prems" True step show ?thesis by simp
    next
      case eq: True
      define n where "n = nat len"
      define a' where "a' = take n (a[nat j := a ! n])"
      have n: "Suc n = length a" "nat i < nat j" "nat j \<le> n"
        using True "1.prems" by (simp_all add: n_def)
      have step: "Dedup_inner a len i j = Dedup_inner a' (len - 1) i j"
        using True i j l eq by (subst Dedup_inner.simps) (simp add: a'_def n_def)
      have la: "length a' = n" using n by (simp add: a'_def)
      have nth: "\<And>m. m < n \<Longrightarrow> a' ! m = (if m = nat j then a ! n else a ! m)"
        using n by (simp add: a'_def nth_list_update)
      have set: "set a' = set a" unfolding a'_def using n eq by (intro swap_last_set) 
      have U: "\<And>k m. k < nat i \<Longrightarrow> m < length a \<Longrightarrow> m \<noteq> k \<Longrightarrow> a ! m \<noteq> a ! k"
        using "1.prems"(5) unfolding uniq_upto_def by blast
      have u: "uniq_upto a' (nat i)"
        unfolding uniq_upto_def
      proof (intro allI impI)
        fix k m assume k: "k < nat i" and m: "m < length a'" "m \<noteq> k"
        have "a' ! k = a ! k" using nth[of k] k n by simp
        moreover have "a ! n \<noteq> a ! k"
          by (rule U) (use k n in linarith)+
        moreover have "a ! m \<noteq> a ! k"
          by (rule U) (use k m n la in linarith)+
        ultimately show "a' ! m \<noteq> a' ! k" using nth[of m] m la by simp
      qed
      have r: "\<forall>m. nat i < m \<and> m < nat j \<longrightarrow> a' ! m \<noteq> a' ! nat i"
      proof (intro allI impI)
        fix m assume m: "nat i < m \<and> m < nat j"
        then have "a' ! m = a ! m" "a' ! nat i = a ! nat i" using nth[of m] nth[of "nat i"] n by simp_all
        then show "a' ! m \<noteq> a' ! nat i" using "1.prems"(6) m by simp
      qed
      have "len - 1 = int (length a') - 1" using la n len by simp
      moreover have "j \<le> len - 1 + 1" using True by simp
      ultimately obtain a'' len' where
        "Dedup_inner a' (len - 1) i j = Some (a'', len')" "len' = int (length a'') - 1"
        "i \<le> len'" "set a'' = set a'" "length a'' \<le> length a'" "uniq_upto a'' (Suc (nat i))"
        using "1.IH"(1)[OF True i j eq l, folded n_def a'_def] "1.prems"(2,3) u r
        by (metis (no_types, lifting) n_def a'_def)
      then show ?thesis using step set la n by simp
    qed
  qed
qed


lemma uniq_upto_distinct:
  assumes "uniq_upto a i" "length a \<le> Suc i"
  shows "distinct a"
  unfolding distinct_conv_nth
proof (intro allI impI)
  fix k m assume km: "k < length a" "m < length a" "k \<noteq> m"
  have U: "\<And>k m. k < i \<Longrightarrow> m < length a \<Longrightarrow> m \<noteq> k \<Longrightarrow> a ! m \<noteq> a ! k"
    using assms(1) unfolding uniq_upto_def by blast
  from km consider "k < m" | "m < k" by linarith
  then show "a ! k \<noteq> a ! m"
  proof cases
    case 1
    then have "k < i" using km assms(2) by linarith
    from U[OF this km(2)] km(3) show ?thesis by auto
  next
    case 2
    then have "m < i" using km assms(2) by linarith
    from U[OF this km(1)] km(3) show ?thesis by auto
  qed
qed

lemma Dedup_outer_inv:
  assumes "len = int (length a) - 1" "0 \<le> i" "i \<le> len + 1" "uniq_upto a (nat i)"
  shows "\<exists>r. Dedup_outer a len i = Some r \<and> set r = set a \<and> length r \<le> length a \<and> distinct r"
  using assms
proof (induction a len i rule: Dedup_outer.induct)
  case (1 a len i)
  show ?case
  proof (cases "i < len")
    case False
    then have "Dedup_outer a len i = Some a" by (subst Dedup_outer.simps) simp
    moreover have "distinct a"
      using "1.prems"(4) by (rule uniq_upto_distinct) (use False "1.prems" in linarith)
    ultimately show ?thesis by simp
  next
    case True
    have "\<forall>m. nat i < m \<and> m < nat (i + 1) \<longrightarrow> a ! m \<noteq> a ! nat i"
    proof (intro allI impI)
      fix m assume "nat i < m \<and> m < nat (i + 1)"
      then have False using "1.prems"(2) by linarith
      then show "a ! m \<noteq> a ! nat i" ..
    qed
    with Dedup_inner_inv[of len a i "i + 1"] "1.prems" True
    obtain a' len' where inner: "Dedup_inner a len i (i + 1) = Some (a', len')"
      and a': "len' = int (length a') - 1" "i \<le> len'" "set a' = set a" "length a' \<le> length a"
        "uniq_upto a' (Suc (nat i))"
      by auto
    have step: "Dedup_outer a len i = Dedup_outer a' len' (i + 1)"
      using True inner by (subst Dedup_outer.simps) simp
    have "Suc (nat i) = nat (i + 1)" using "1.prems"(2) by simp
    with a' "1.prems"(2)
    have "\<exists>r. Dedup_outer a' len' (i + 1) = Some r \<and> set r = set a' \<and> length r \<le> length a' \<and> distinct r"
      by (intro "1.IH"[OF True inner refl]) simp_all
    with step a' show ?thesis by auto
  qed
qed

lemma Dedup_total:
  "\<exists>r. Dedup a = Some r \<and> set r = set a \<and> length r \<le> length a \<and> distinct r"
  unfolding Dedup_def by (rule Dedup_outer_inv) (simp_all add: uniq_upto_def)

lemma Dedup_inner_distinct:
  assumes "distinct a" "len = int (length a) - 1" "0 \<le> i" "i < j"
  shows "Dedup_inner a len i j = Some (a, len)"
  using assms
proof (induction a len i j rule: Dedup_inner.induct)
  case (1 a len i j)
  show ?case
  proof (cases "j \<le> len")
    case False
    then show ?thesis by (subst Dedup_inner.simps) simp
  next
    case True
    have i: "index a i = Some (a ! nat i)" using True "1.prems" by (intro index_Some; linarith)
    have j: "index a j = Some (a ! nat j)" using True "1.prems" by (intro index_Some; linarith)
    have "nat i < length a" "nat j < length a" "nat i \<noteq> nat j"
      using True "1.prems" by linarith+
    with \<open>distinct a\<close> have ne: "a ! nat i \<noteq> a ! nat j" by (simp add: nth_eq_iff_index_eq)
    have "Dedup_inner a len i j = Dedup_inner a len i (j + 1)"
      using True i j ne by (subst Dedup_inner.simps) simp
    also have "\<dots> = Some (a, len)"
      using "1.IH"(2)[OF True i j ne] "1.prems" by simp
    finally show ?thesis .
  qed
qed

lemma Dedup_outer_distinct:
  assumes "distinct a" "len = int (length a) - 1" "0 \<le> i"
  shows "Dedup_outer a len i = Some a"
  using assms
proof (induction a len i rule: Dedup_outer.induct)
  case (1 a len i)
  show ?case
  proof (cases "i < len")
    case False
    then show ?thesis by (subst Dedup_outer.simps) simp
  next
    case True
    have inner: "Dedup_inner a len i (i + 1) = Some (a, len)"
      using "1.prems" by (intro Dedup_inner_distinct) simp_all
    have "Dedup_outer a len i = Dedup_outer a len (i + 1)"
      using True inner by (subst Dedup_outer.simps) simp
    also have "\<dots> = Some a"
      using "1.IH"[OF True inner refl] "1.prems" by simp
    finally show ?thesis .
  qed
qed

lemma Dedup_distinct_id: "distinct a \<Longrightarrow> Dedup a = Some a"
  unfolding Dedup_def by (rule Dedup_outer_distinct) simp_all

text \<open>
  C4. \<open>Dedup a\<close> returns (it never indexes outside the slice), and the list it returns
  has the elements of \<open>a\<close>, is at most as long as \<open>a\<close> and has no duplicates.
\<close>

theorem Dedup_set_length_distinct:
  "\<exists>r. Dedup a = Some r \<and> set r = set a \<and> length r \<le> length a \<and> distinct r"
  by (rule Dedup_total)

text \<open>
  C5. \<open>Dedup\<close> is idempotent: \<open>Dedup a\<close> returns a list \<open>r\<close>, and \<open>Dedup r\<close> returns \<open>r\<close>
  itself, in the same order.
\<close>

theorem Dedup_idempotent: "\<exists>r. Dedup a = Some r \<and> Dedup r = Some r"
  using Dedup_total[of a] Dedup_distinct_id by blast

end
